theory Spec2Isabelle
  imports Main
begin

section \<open>The analysis driver of the password guessing framework\<close>

text \<open>
  A shallow embedding of \<^verbatim>\<open>src/pgf/analysis/analysis.py\<close>: the class
  \<^verbatim>\<open>Analysis\<close> with its methods \<^verbatim>\<open>execute\<close>, \<^verbatim>\<open>kill_guesser\<close> and
  \<^verbatim>\<open>handle_close\<close>. The standard input is a list of lines, each line a
  string that still carries its terminator. The calls made on the analysis
  scheme and the invocations of \<^verbatim>\<open>kill_guesser\<close> are recorded, in order, in
  the field \<open>calls\<close> of the state. Log messages are left out.
\<close>

subsection \<open>Python values\<close>

datatype error = IndexError | UnboundLocalError | ValueError | NoSuchProcess | OSError

datatype outcome = Returned | Raised error

text \<open>How the body of a \<^verbatim>\<open>for\<close> loop ends: it falls through to the next
  iteration, executes \<^verbatim>\<open>break\<close>, executes \<^verbatim>\<open>return\<close>, or raises.\<close>

datatype control = Continue | Break | Return | Raise error

text \<open>A list index as Python resolves it: a negative index counts from the
  end, anything outside the list raises \<^verbatim>\<open>IndexError\<close>.\<close>

definition py_index :: "nat \<Rightarrow> int \<Rightarrow> nat option" where
  "py_index len i =
     (if 0 \<le> i \<and> i < int len then Some (nat i)
      else if i < 0 \<and> - int len \<le> i then Some (nat (int len + i))
      else None)"

text \<open>\<^verbatim>\<open>xs[i] = v\<close>\<close>

definition py_store :: "'a list \<Rightarrow> int \<Rightarrow> 'a \<Rightarrow> 'a list option" where
  "py_store xs i v =
     (case py_index (length xs) i of
        None \<Rightarrow> None
      | Some k \<Rightarrow> Some (xs[k := v]))"

text \<open>\<^verbatim>\<open>del xs[i]\<close>\<close>

definition py_del :: "'a list \<Rightarrow> int \<Rightarrow> 'a list option" where
  "py_del xs i =
     (case py_index (length xs) i of
        None \<Rightarrow> None
      | Some k \<Rightarrow> Some (take k xs @ drop (Suc k) xs))"

text \<open>\<^verbatim>\<open>range(a, b, -1)\<close>: \<open>a, a - 1, \<dots>, b + 1\<close>.\<close>

definition range_down :: "int \<Rightarrow> int \<Rightarrow> int list" where
  "range_down a b = map (\<lambda>k. a - int k) [0 ..< nat (a - b)]"

text \<open>\<^verbatim>\<open>for i in is: del xs[i]\<close>\<close>

fun del_items :: "'a list \<Rightarrow> int list \<Rightarrow> 'a list option" where
  "del_items xs [] = Some xs"
| "del_items xs (i # is) =
     (case py_del xs i of
        None \<Rightarrow> None
      | Some ys \<Rightarrow> del_items ys is)"

text \<open>\<^verbatim>\<open>s[:-1]\<close> is \<^const>\<open>butlast\<close>; \<^verbatim>\<open>s[:-4]\<close> drops the last four
  characters and is empty for a string of fewer than four.\<close>

definition drop_last4 :: "string \<Rightarrow> string" where
  "drop_last4 s = take (length s - 4) s"

subsection \<open>The two regular expressions and the substring test\<close>

definition is_digit :: "char \<Rightarrow> bool" where
  "is_digit c = (c \<in> set ''0123456789'')"

text \<open>\<^verbatim>\<open>\s\<close> on a byte string: space, tab, line feed, vertical tab, form
  feed, carriage return.\<close>

definition is_space :: "char \<Rightarrow> bool" where
  "is_space c = (c \<in> set [CHR '' '', CHR 0x09, CHR 0x0A, CHR 0x0B, CHR 0x0C, CHR 0x0D])"

text \<open>\<^verbatim>\<open>status_line_re.match(line)\<close> for \<^verbatim>\<open>^[0-9]*g\s[0-9]*p\<close>. A run of
  digits is followed by a character that is no digit, so the greedy match
  is the only one.\<close>

definition status_line_match :: "string \<Rightarrow> bool" where
  "status_line_match line =
     (case dropWhile is_digit line of
        g # w # rest \<Rightarrow>
          g = CHR ''g'' \<and> is_space w \<and>
          (case dropWhile is_digit rest of
             p # _ \<Rightarrow> p = CHR ''p''
           | [] \<Rightarrow> False)
      | _ \<Rightarrow> False)"

text \<open>The first element of \<^verbatim>\<open>candidates_processed_re.findall(line)\<close> for
  \<^verbatim>\<open>[0-9]*p\<close>: the leftmost position from which digits and then a
  \<^verbatim>\<open>p\<close> can be read; \<open>None\<close> when the list is empty.\<close>

fun candidates_processed_first :: "string \<Rightarrow> string option" where
  "candidates_processed_first [] = None"
| "candidates_processed_first (c # cs) =
     (case dropWhile is_digit (c # cs) of
        p # _ \<Rightarrow>
          if p = CHR ''p'' then Some (takeWhile is_digit (c # cs) @ ''p'')
          else candidates_processed_first cs
      | [] \<Rightarrow> candidates_processed_first cs)"

text \<open>\<^verbatim>\<open>sub in s\<close>\<close>

fun contains :: "string \<Rightarrow> string \<Rightarrow> bool" where
  "contains sub [] = (sub = [])"
| "contains sub (c # cs) = (take (length sub) (c # cs) = sub \<or> contains sub cs)"

definition session_completed :: "string \<Rightarrow> bool" where
  "session_completed line = contains ''Session completed'' line"

definition digit_value :: "char \<Rightarrow> int" where
  "digit_value c = int (of_char c) - 48"

text \<open>\<^verbatim>\<open>int(s)\<close> on a string of decimal digits; \<^verbatim>\<open>ValueError\<close> on the
  empty string and on any other character. (Python also accepts a sign and
  surrounding blanks; the strings that reach this call have neither.)\<close>

definition py_int :: "string \<Rightarrow> int option" where
  "py_int s =
     (if s \<noteq> [] \<and> list_all is_digit s
      then Some (foldl (\<lambda>a c. 10 * a + digit_value c) 0 s)
      else None)"

subsection \<open>The job and the state of a run\<close>

datatype filetype = Plaintext | Hashvalues

text \<open>The attributes of \<^verbatim>\<open>Analysis\<close> that \<^verbatim>\<open>execute\<close> reads.
  \<open>terminate_guessing\<close> is \<open>None\<close> for Python's \<^verbatim>\<open>None\<close>.\<close>

record job =
  filetype :: filetype
  guesser_pid :: nat
  analysis_interval :: int
  terminate_guessing :: "int option"

text \<open>What the analysis scheme and the process killer see of a run.\<close>

datatype event =
    ProcessCandidates "string option list"
  | ProcessStatusLine string
  | GenReport
  | KillGuesser

text \<open>The attributes that \<^verbatim>\<open>execute\<close> writes. A slot of
  \<open>received_candidates\<close> holds \<open>None\<close> until a candidate is stored in
  it.\<close>

record state =
  received_candidates :: "string option list"
  index :: int
  candidate_counter :: int
  calls :: "event list"

definition emit :: "event \<Rightarrow> state \<Rightarrow> state" where
  "emit e s = s\<lparr>calls := calls s @ [e]\<rparr>"

text \<open>The first three assignments of \<^verbatim>\<open>execute\<close>; \<^verbatim>\<open>[None] * n\<close> is empty
  for \<open>n \<le> 0\<close>.\<close>

definition init_state :: "job \<Rightarrow> state" where
  "init_state j =
     \<lparr>received_candidates = replicate (nat (analysis_interval j)) None,
      index = 0,
      candidate_counter = 0,
      calls = []\<rparr>"

subsection \<open>handle_close\<close>

definition handle_close :: "job \<Rightarrow> state \<Rightarrow> string option \<Rightarrow> state \<times> outcome" where
  "handle_close j s last_line =
     (if filetype j = Plaintext then
        (if index s > 0 then
           (case del_items (received_candidates s)
                   (range_down (analysis_interval j - 1) (index s - 1)) of
              None \<Rightarrow> (s, Raised IndexError)
            | Some rc \<Rightarrow>
                (emit GenReport
                   ((emit (ProcessCandidates rc) (s\<lparr>received_candidates := rc\<rparr>))
                      \<lparr>index := 0\<rparr>),
                 Returned))
         else (emit GenReport s, Returned))
      else
        (case last_line of
           Some l \<Rightarrow> (emit GenReport (emit (ProcessStatusLine l) s), Returned)
         | None \<Rightarrow> (emit GenReport s, Returned)))"

subsection \<open>execute, plaintext input\<close>

text \<open>The body of the loop over the candidates.\<close>

definition plaintext_body :: "job \<Rightarrow> state \<Rightarrow> string \<Rightarrow> state \<times> control" where
  "plaintext_body j s candidate =
     (case py_store (received_candidates s) (index s) (Some (butlast candidate)) of
        None \<Rightarrow> (s, Raise IndexError)
      | Some rc \<Rightarrow>
          (let s1 = s\<lparr>received_candidates := rc,
                      candidate_counter := candidate_counter s + 1,
                      index := index s + 1\<rparr>
           in if terminate_guessing j \<noteq> None
                 \<and> Some (candidate_counter s1) = terminate_guessing j
              then (emit KillGuesser s1, Break)
              else if index s1 = analysis_interval j
              then ((emit (ProcessCandidates (received_candidates s1)) s1)\<lparr>index := 0\<rparr>,
                    Continue)
              else (s1, Continue)))"

fun plaintext_loop :: "job \<Rightarrow> state \<Rightarrow> string list \<Rightarrow> state \<times> control" where
  "plaintext_loop j s [] = (s, Continue)"
| "plaintext_loop j s (candidate # rest) =
     (case plaintext_body j s candidate of
        (s', Continue) \<Rightarrow> plaintext_loop j s' rest
      | (s', c) \<Rightarrow> (s', c))"

subsection \<open>execute, hashed input\<close>

text \<open>Lines 147 to 149: the count of a status line, with its last three
  digits replaced by zeros.\<close>

definition coarse_count :: "string \<Rightarrow> error + int" where
  "coarse_count line =
     (case candidates_processed_first line of
        None \<Rightarrow> Inl IndexError
      | Some temp \<Rightarrow>
          (case py_int (drop_last4 temp @ ''000'') of
             None \<Rightarrow> Inl ValueError
           | Some n \<Rightarrow> Inr n))"

text \<open>The body of the loop over the status lines. In the branch of
  \<^verbatim>\<open>Session completed\<close> the method calls \<^verbatim>\<open>handle_close()\<close> itself and
  returns.\<close>

definition hash_body :: "job \<Rightarrow> state \<Rightarrow> string \<Rightarrow> state \<times> control" where
  "hash_body j s line =
     (if \<not> status_line_match line then
        (if session_completed line then
           (let s1 = (if terminate_guessing j \<noteq> None then emit KillGuesser s else s)
            in case handle_close j s1 None of
                 (s2, Raised e) \<Rightarrow> (s2, Raise e)
               | (s2, Returned) \<Rightarrow> (s2, Return))
         else (s, Continue))
      else
        (case coarse_count line of
           Inl e \<Rightarrow> (s, Raise e)
         | Inr n \<Rightarrow>
             (let s1 = s\<lparr>candidate_counter := n\<rparr>
              in if terminate_guessing j \<noteq> None
                    \<and> candidate_counter s1 \<ge> the (terminate_guessing j)
                 then (emit KillGuesser s1, Break)
                 else (emit (ProcessStatusLine line) s1, Continue))))"

text \<open>The loop threads the local variable \<^verbatim>\<open>line\<close>, which is unbound
  (\<open>None\<close>) until the first iteration binds it.\<close>

fun hash_loop ::
  "job \<Rightarrow> state \<Rightarrow> string option \<Rightarrow> string list \<Rightarrow> (state \<times> string option) \<times> control" where
  "hash_loop j s line [] = ((s, line), Continue)"
| "hash_loop j s line (l # rest) =
     (case hash_body j s l of
        (s', Continue) \<Rightarrow> hash_loop j s' (Some l) rest
      | (s', c) \<Rightarrow> ((s', Some l), c))"

subsection \<open>execute\<close>

definition execute :: "job \<Rightarrow> string list \<Rightarrow> state \<times> outcome" where
  "execute j stdin =
     (if filetype j = Plaintext then
        (case plaintext_loop j (init_state j) stdin of
           (s, Raise e) \<Rightarrow> (s, Raised e)
         | (s, _) \<Rightarrow> handle_close j s None)
      else
        (case hash_loop j (init_state j) None stdin of
           ((s, _), Raise e) \<Rightarrow> (s, Raised e)
         | ((s, _), Return) \<Rightarrow> (s, Returned)
         | ((s, None), _) \<Rightarrow> (s, Raised UnboundLocalError)
         | ((s, Some l), _) \<Rightarrow> handle_close j s (Some l)))"

subsection \<open>kill_guesser\<close>

text \<open>
  What \<^verbatim>\<open>psutil\<close> and \<^verbatim>\<open>os.kill\<close> answer at the time of the call:
  whether \<^verbatim>\<open>psutil.Process(pid)\<close> finds the process, the list that
  \<^verbatim>\<open>children(recursive=True)\<close> returns (\<open>None\<close> when it raises
  \<^verbatim>\<open>NoSuchProcess\<close>), and whether \<^verbatim>\<open>os.kill(pid, SIGKILL)\<close> returns or
  raises \<^verbatim>\<open>OSError\<close>. Both versions of \<^verbatim>\<open>psutil\<close> take the same path.
\<close>

record os_env =
  process_found :: "nat \<Rightarrow> bool"
  children_recursive :: "nat \<Rightarrow> nat list option"
  kill_succeeds :: "nat \<Rightarrow> bool"

text \<open>The loop over the children. The result lists the process ids on which
  \<^verbatim>\<open>os.kill\<close> was called, in order. The log message written before each
  signal is left out.\<close>

fun kill_children :: "os_env \<Rightarrow> nat list \<Rightarrow> nat list \<times> outcome" where
  "kill_children env [] = ([], Returned)"
| "kill_children env (c # cs) =
     (if kill_succeeds env c
      then (case kill_children env cs of (sent, r) \<Rightarrow> (c # sent, r))
      else ([c], Raised OSError))"

text \<open>The inner \<^verbatim>\<open>try\<close> of lines 180 to 190; \<open>p\<close> is \<open>None\<close> when the
  variable was never bound. Its handler catches \<^verbatim>\<open>NoSuchProcess\<close>
  only.\<close>

definition kill_descendants :: "os_env \<Rightarrow> nat option \<Rightarrow> nat list \<times> outcome" where
  "kill_descendants env p =
     (case p of
        None \<Rightarrow> ([], Raised UnboundLocalError)
      | Some pid \<Rightarrow>
          (case children_recursive env pid of
             None \<Rightarrow> ([], Returned)
           | Some children \<Rightarrow> kill_children env children))"

text \<open>The outer \<^verbatim>\<open>try\<close> catches every exception, also the one of the
  last \<^verbatim>\<open>os.kill\<close>, so the method always returns.\<close>

definition kill_guesser :: "os_env \<Rightarrow> nat \<Rightarrow> nat list \<times> outcome" where
  "kill_guesser env pid =
     (let p = (if process_found env pid then Some pid else None)
      in case kill_descendants env p of
           (sent, Raised e) \<Rightarrow> (sent, Returned)
         | (sent, Returned) \<Rightarrow> (sent @ [pid], Returned))"

subsection \<open>Reading a run\<close>

text \<open>The batches handed to \<^verbatim>\<open>process_candidates\<close>, in the order of the
  calls.\<close>

fun batches :: "event list \<Rightarrow> string option list list" where
  "batches [] = []"
| "batches (ProcessCandidates b # es) = b # batches es"
| "batches (ProcessStatusLine l # es) = batches es"
| "batches (GenReport # es) = batches es"
| "batches (KillGuesser # es) = batches es"

text \<open>The buffer between two candidates: it has as many slots as the
  interval, and the write index lies inside it.\<close>

definition buffer_ok :: "job \<Rightarrow> state \<Rightarrow> bool" where
  "buffer_ok j s =
     (int (length (received_candidates s)) = analysis_interval j \<and>
      0 \<le> index s \<and> index s < analysis_interval j)"

text \<open>A line of the hashed input after which the loop goes on to the next
  line: a status line below the ceiling, or a line that is neither a status
  line nor the end of the session.\<close>

definition hash_line_continues :: "job \<Rightarrow> string \<Rightarrow> bool" where
  "hash_line_continues j line =
     (if status_line_match line then
        (case coarse_count line of
           Inl e \<Rightarrow> False
         | Inr n \<Rightarrow> \<not> (terminate_guessing j \<noteq> None \<and> n \<ge> the (terminate_guessing j)))
      else \<not> session_completed line)"


subsection \<open>Jobs and inputs of the examples\<close>

definition plaintext_job :: "int \<Rightarrow> int option \<Rightarrow> job" where
  "plaintext_job n c =
     \<lparr>filetype = Plaintext, guesser_pid = 1, analysis_interval = n, terminate_guessing = c\<rparr>"

definition hash_job :: "int option \<Rightarrow> job" where
  "hash_job c =
     \<lparr>filetype = Hashvalues, guesser_pid = 1, analysis_interval = 10, terminate_guessing = c\<rparr>"

definition example_status_line :: string where
  "example_status_line =
     ''736g 4008p 0:00:00:04 152.0g/s 828.0p/s 828.0c/s 885086C/s carama..marcia''"

text \<open>A guesser with process id 1, children 2 and 3, and their children 4
  and 5; process 4 has exited by the time it is signalled.\<close>

definition example_tree :: os_env where
  "example_tree =
     \<lparr>process_found = (\<lambda>p. True),
      children_recursive = (\<lambda>p. if p = 1 then Some [2, 4, 3, 5] else Some []),
      kill_succeeds = (\<lambda>p. p \<noteq> 4)\<rparr>"

section \<open>Status lines\<close>

lemma example_status_line_match: "status_line_match example_status_line"
  by code_simp

lemma example_coarse_count: "coarse_count example_status_line = Inr 4000"
  by code_simp

lemma example_candidates_processed:
  "candidates_processed_first example_status_line = Some ''4008p''"
  by code_simp

text \<open>
  C7. The line \<^verbatim>\<open>736g 4008p 0:00:00:04 ...\<close> matches the pattern of a status
  line, the field taken from it is \<^verbatim>\<open>4008p\<close>, the count made of it is 4000,
  and 4000 is the value that the loop stores in the counter and compares with
  the ceiling.
\<close>

theorem example_status_line_progress:
  "status_line_match example_status_line \<and>
   candidates_processed_first example_status_line = Some ''4008p'' \<and>
   coarse_count example_status_line = Inr 4000 \<and>
   hash_body j s example_status_line =
     (if terminate_guessing j \<noteq> None \<and> 4000 \<ge> the (terminate_guessing j)
      then (emit KillGuesser (s\<lparr>candidate_counter := 4000\<rparr>), Break)
      else (emit (ProcessStatusLine example_status_line) (s\<lparr>candidate_counter := 4000\<rparr>),
            Continue))"
  using example_status_line_match example_coarse_count example_candidates_processed
  by (simp add: hash_body_def)

subsection \<open>A status line always yields a count\<close>

text \<open>The pattern of a status line guarantees that the search finds the
  field and that the string handed to \<^verbatim>\<open>int\<close> is made of digits, so
  neither \<^verbatim>\<open>IndexError\<close> nor \<^verbatim>\<open>ValueError\<close> can arise in the loop.\<close>

lemma not_digit_g: "\<not> is_digit CHR ''g''" by (simp add: is_digit_def)
lemma not_digit_p: "\<not> is_digit CHR ''p''" by (simp add: is_digit_def)
lemma space_not_digit: "is_space w \<Longrightarrow> \<not> is_digit w \<and> w \<noteq> CHR ''p''"
  by (auto simp: is_space_def is_digit_def)

lemma digit_value_nonneg: "is_digit c \<Longrightarrow> 0 \<le> digit_value c"
  by (auto simp: is_digit_def digit_value_def)

lemma dropWhile_digits:
  "list_all is_digit d \<Longrightarrow> \<not> is_digit x \<Longrightarrow> dropWhile is_digit (d @ x # r) = x # r"
  by (induction d) simp_all

lemma takeWhile_digits:
  "list_all is_digit d \<Longrightarrow> \<not> is_digit x \<Longrightarrow> takeWhile is_digit (d @ x # r) = d"
  by (induction d) simp_all

lemma search_skips_digits:
  "list_all is_digit d \<Longrightarrow> \<not> is_digit x \<Longrightarrow> x \<noteq> CHR ''p'' \<Longrightarrow>
   candidates_processed_first (d @ x # r) = candidates_processed_first r"
proof (induction d)
  case Nil
  then show ?case by simp
next
  case (Cons c d)
  have "dropWhile is_digit (c # d @ x # r) = x # r"
    using dropWhile_digits[of "c # d" x r] Cons.prems by simp
  then show ?case using Cons by (simp del: dropWhile.simps)
qed

lemma search_finds_field:
  "list_all is_digit d \<Longrightarrow> candidates_processed_first (d @ CHR ''p'' # r) = Some (d @ ''p'')"
proof (cases d)
  case Nil
  then show ?thesis by (simp add: not_digit_p)
next
  case (Cons c d')
  assume a: "list_all is_digit d"
  have "dropWhile is_digit ((c # d') @ CHR ''p'' # r) = CHR ''p'' # r"
    using dropWhile_digits[of "c # d'" "CHR ''p''" r] a Cons not_digit_p by simp
  moreover have "takeWhile is_digit ((c # d') @ CHR ''p'' # r) = c # d'"
    using takeWhile_digits[of "c # d'" "CHR ''p''" r] a Cons not_digit_p by simp
  ultimately show ?thesis using Cons by (simp del: dropWhile.simps takeWhile.simps)
qed

lemma status_line_shape:
  assumes "status_line_match l"
  shows "\<exists>d1 w d2 r. l = d1 @ CHR ''g'' # w # d2 @ CHR ''p'' # r \<and>
           list_all is_digit d1 \<and> is_space w \<and> list_all is_digit d2"
proof -
  obtain w rest where a: "dropWhile is_digit l = CHR ''g'' # w # rest" "is_space w"
    and b: "case dropWhile is_digit rest of p # _ \<Rightarrow> p = CHR ''p'' | [] \<Rightarrow> False"
    using assms by (auto simp: status_line_match_def split: list.splits)
  obtain r where c: "dropWhile is_digit rest = CHR ''p'' # r"
    using b by (auto split: list.splits)
  have "l = takeWhile is_digit l @ CHR ''g'' # w # rest"
    using takeWhile_dropWhile_id[of is_digit l] a(1) by simp
  moreover have "rest = takeWhile is_digit rest @ CHR ''p'' # r"
    using takeWhile_dropWhile_id[of is_digit rest] c by simp
  moreover have "list_all is_digit (takeWhile is_digit l)"
    "list_all is_digit (takeWhile is_digit rest)"
    by (auto simp: list_all_iff dest: set_takeWhileD)
  ultimately show ?thesis using a(2) by metis
qed

lemma py_int_digits:
  "list_all is_digit ds \<Longrightarrow> ds \<noteq> [] \<Longrightarrow> \<exists>n. py_int ds = Some n \<and> 0 \<le> n"
proof -
  assume a: "list_all is_digit ds" "ds \<noteq> []"
  have "list_all is_digit xs \<Longrightarrow> 0 \<le> acc \<Longrightarrow>
        0 \<le> foldl (\<lambda>a c. 10 * a + digit_value c) acc xs" for xs acc
    by (induction xs arbitrary: acc) (auto simp: digit_value_nonneg)
  then show ?thesis using a by (simp add: py_int_def)
qed

lemma status_line_field:
  assumes "status_line_match l"
  shows "\<exists>d2. list_all is_digit d2 \<and> candidates_processed_first l = Some (d2 @ ''p'')"
proof -
  obtain d1 w d2 r where s: "l = d1 @ CHR ''g'' # w # d2 @ CHR ''p'' # r"
    "list_all is_digit d1" "is_space w" "list_all is_digit d2"
    using status_line_shape[OF assms] by blast
  have "candidates_processed_first l = candidates_processed_first (w # d2 @ CHR ''p'' # r)"
    unfolding s(1) by (rule search_skips_digits[OF s(2) not_digit_g]) simp
  also have "\<dots> = candidates_processed_first (d2 @ CHR ''p'' # r)"
    using search_skips_digits[of "[]" w "d2 @ CHR ''p'' # r"] space_not_digit[OF s(3)] by simp
  also have "\<dots> = Some (d2 @ ''p'')" by (rule search_finds_field[OF s(4)])
  finally show ?thesis using s(4) by blast
qed

lemma status_line_coarse_count:
  assumes "status_line_match l"
  shows "\<exists>n. coarse_count l = Inr n \<and> 0 \<le> n"
proof -
  obtain d2 where f: "list_all is_digit d2" "candidates_processed_first l = Some (d2 @ ''p'')"
    using status_line_field[OF assms] by blast
  have "drop_last4 (d2 @ ''p'') = take (length d2 - 3) d2"
    by (simp add: drop_last4_def)
  moreover have "list_all is_digit (take (length d2 - 3) d2)"
    using f(1) by (auto simp: list_all_iff dest: in_set_takeD)
  moreover have "list_all is_digit ''000''" by (simp add: is_digit_def)
  ultimately have "list_all is_digit (drop_last4 (d2 @ ''p'') @ ''000'')"
    by simp
  then obtain n where "py_int (drop_last4 (d2 @ ''p'') @ ''000'') = Some n" "0 \<le> n"
    using py_int_digits by blast
  then show ?thesis using f(2) by (simp add: coarse_count_def)
qed

section \<open>Stripping the line terminator\<close>

lemma terminated_line_stored_without_newline:
  "butlast (c @ [CHR 0x0A]) = c"
  by simp

text \<open>
  C8. A line that does not end with a newline is not stored unchanged: the
  slice drops its last character whatever it is. The stream whose only line
  is \<^verbatim>\<open>abc\<close>, with no newline, hands the candidate \<^verbatim>\<open>ab\<close> to the analysis
  scheme.
\<close>

theorem unterminated_line_loses_last_character:
  "calls (fst (execute (plaintext_job 1 None) [''abc'']))
     = [ProcessCandidates [Some ''ab''], GenReport]"
  by code_simp

section \<open>The empty stream of status lines\<close>

text \<open>
  C10. With hashed input and an empty stream the loop never binds \<^verbatim>\<open>line\<close>,
  the call \<^verbatim>\<open>handle_close(last_line=line)\<close> raises, and the run ends
  with no call made at all, in particular without \<^verbatim>\<open>gen_report\<close>.
\<close>

theorem hash_empty_stream_raises:
  "execute (j\<lparr>filetype := Hashvalues\<rparr>) [] =
     (init_state (j\<lparr>filetype := Hashvalues\<rparr>), Raised UnboundLocalError) \<and>
   calls (fst (execute (j\<lparr>filetype := Hashvalues\<rparr>) [])) = []"
  by (simp add: execute_def init_state_def)

section \<open>Killing the process tree\<close>

lemma kill_children_all_succeed:
  "list_all (kill_succeeds env) cs \<Longrightarrow> kill_children env cs = (cs, Returned)"
  by (induction cs) simp_all

lemma kill_guesser_all_succeed:
  assumes "process_found env pid"
    and "children_recursive env pid = Some cs"
    and "list_all (kill_succeeds env) cs"
  shows "kill_guesser env pid = (cs @ [pid], Returned)"
  using assms by (simp add: kill_guesser_def kill_descendants_def kill_children_all_succeed)

lemma kill_guesser_returns: "snd (kill_guesser env pid) = Returned"
  by (simp add: kill_guesser_def split: prod.split outcome.split)

text \<open>
  C5. A kill that fails does abort the rest. In the tree of five processes,
  with the descendants listed as 2, 4, 3, 5 and process 4 already gone, the
  signal is sent to 2 and to 4 only: processes 3 and 5 and the root 1 are
  never signalled.
\<close>

theorem failed_kill_aborts_remaining:
  "kill_guesser example_tree 1 = ([2, 4], Returned)"
  by (simp add: kill_guesser_def kill_descendants_def example_tree_def)

section \<open>Batches of candidates\<close>

lemma range_down_empty: "a \<le> b \<Longrightarrow> range_down a b = []"
  by (simp add: range_down_def)

lemma range_down_Cons: "b < a \<Longrightarrow> range_down a b = a # range_down (a - 1) b"
proof -
  assume h: "b < a"
  then have n: "nat (a - b) = Suc (nat (a - 1 - b))" by simp
  have "[0 ..< Suc (nat (a - 1 - b))] = 0 # map Suc [0 ..< nat (a - 1 - b)]"
    by (simp add: upt_conv_Cons map_Suc_upt del: upt_Suc)
  then show ?thesis
    unfolding range_down_def n by (simp add: comp_def algebra_simps del: upt_Suc)
qed

lemma py_del_last: "xs \<noteq> [] \<Longrightarrow> py_del xs (int (length xs) - 1) = Some (butlast xs)"
  by (cases xs rule: rev_cases) (auto simp: py_del_def py_index_def nat_diff_distrib)

lemma del_items_range:
  "k \<le> length xs \<Longrightarrow>
   del_items xs (range_down (int (length xs) - 1) (int k - 1)) = Some (take k xs)"
proof (induction "length xs - k" arbitrary: xs)
  case 0
  then show ?case by (simp add: range_down_empty)
next
  case (Suc d)
  then have ne: "xs \<noteq> []" and lt: "k < length xs" by auto
  have r: "range_down (int (length xs) - 1) (int k - 1)
           = (int (length xs) - 1) # range_down (int (length (butlast xs)) - 1) (int k - 1)"
    using lt ne by (subst range_down_Cons) (auto simp: of_nat_diff)
  have "d = length (butlast xs) - k" using Suc.hyps(2) by simp
  moreover have "k \<le> length (butlast xs)" using lt by simp
  ultimately have "del_items (butlast xs) (range_down (int (length (butlast xs)) - 1) (int k - 1))
                   = Some (take k (butlast xs))"
    by (rule Suc.hyps(1))
  moreover have "take k (butlast xs) = take k xs" using lt by (simp add: take_butlast)
  ultimately show ?case using r py_del_last[OF ne] by simp
qed

lemma py_store_in_range:
  "0 \<le> i \<Longrightarrow> i < int (length xs) \<Longrightarrow> py_store xs i v = Some (xs[nat i := v])"
  by (simp add: py_store_def py_index_def)

lemma take_Suc_update:
  "i < length xs \<Longrightarrow> take (Suc i) (xs[i := v]) = take i xs @ [v]"
  by (simp add: take_Suc_conv_app_nth)

lemma plaintext_body_flush:
  assumes "buffer_ok j s"
    and "terminate_guessing j \<noteq> Some (candidate_counter s + 1)"
    and "index s + 1 = analysis_interval j"
  shows "plaintext_body j s c =
     (s\<lparr>received_candidates := (received_candidates s)[nat (index s) := Some (butlast c)],
        candidate_counter := candidate_counter s + 1,
        index := 0,
        calls := calls s @
          [ProcessCandidates ((received_candidates s)[nat (index s) := Some (butlast c)])]\<rparr>,
      Continue)"
  using assms
  by (auto simp: plaintext_body_def buffer_ok_def py_store_in_range emit_def Let_def)

lemma plaintext_body_store:
  assumes "buffer_ok j s"
    and "terminate_guessing j \<noteq> Some (candidate_counter s + 1)"
    and "index s + 1 \<noteq> analysis_interval j"
  shows "plaintext_body j s c =
     (s\<lparr>received_candidates := (received_candidates s)[nat (index s) := Some (butlast c)],
        candidate_counter := candidate_counter s + 1,
        index := index s + 1\<rparr>,
      Continue)"
  using assms
  by (auto simp: plaintext_body_def buffer_ok_def py_store_in_range emit_def Let_def)

lemma plaintext_body_break:
  assumes "buffer_ok j s"
    and "terminate_guessing j = Some (candidate_counter s + 1)"
  shows "plaintext_body j s c =
     (s\<lparr>received_candidates := (received_candidates s)[nat (index s) := Some (butlast c)],
        candidate_counter := candidate_counter s + 1,
        index := index s + 1,
        calls := calls s @ [KillGuesser]\<rparr>,
      Break)"
  using assms
  by (auto simp: plaintext_body_def buffer_ok_def py_store_in_range emit_def Let_def)

lemma plaintext_loop_append:
  "plaintext_loop j s (xs @ ys) =
     (case plaintext_loop j s xs of
        (s', Continue) \<Rightarrow> plaintext_loop j s' ys
      | (s', c) \<Rightarrow> (s', c))"
  by (induction xs arbitrary: s) (auto split: prod.splits control.splits)

lemma plaintext_loop_below_ceiling:
  assumes "buffer_ok j s"
    and "\<forall>c. terminate_guessing j = Some c \<longrightarrow>
             c \<le> candidate_counter s \<or> candidate_counter s + int (length ls) < c"
  shows "\<exists>s' bs.
     plaintext_loop j s ls = (s', Continue) \<and>
     buffer_ok j s' \<and>
     calls s' = calls s @ map ProcessCandidates bs \<and>
     (\<forall>b\<in>set bs. int (length b) = analysis_interval j) \<and>
     concat bs @ take (nat (index s')) (received_candidates s')
       = take (nat (index s)) (received_candidates s) @ map (Some \<circ> butlast) ls \<and>
     candidate_counter s' = candidate_counter s + int (length ls)"
  using assms
proof (induction ls arbitrary: s)
  case Nil
  show ?case by (rule exI[of _ s], rule exI[of _ "[]"]) (simp add: Nil.prems)
next
  case (Cons c rest)
  let ?rc = "(received_candidates s)[nat (index s) := Some (butlast c)]"
  have ok: "buffer_ok j s" by (rule Cons.prems(1))
  have nt: "terminate_guessing j \<noteq> Some (candidate_counter s + 1)"
    using Cons.prems(2) by auto
  have il: "nat (index s) < length (received_candidates s)"
    using ok by (auto simp: buffer_ok_def)
  have tk: "take (Suc (nat (index s))) ?rc
            = take (nat (index s)) (received_candidates s) @ [Some (butlast c)]"
    using il by (rule take_Suc_update)
  show ?case
  proof (cases "index s + 1 = analysis_interval j")
    case True
    define s1 where "s1 = s\<lparr>received_candidates := ?rc,
        candidate_counter := candidate_counter s + 1, index := 0,
        calls := calls s @ [ProcessCandidates ?rc]\<rparr>"
    have b: "plaintext_body j s c = (s1, Continue)"
      unfolding s1_def by (rule plaintext_body_flush[OF ok nt True])
    have ok1: "buffer_ok j s1"
      using ok True by (simp add: buffer_ok_def s1_def)
    have c1: "\<forall>c. terminate_guessing j = Some c \<longrightarrow>
             c \<le> candidate_counter s1 \<or> candidate_counter s1 + int (length rest) < c"
      using Cons.prems(2) by (auto simp: s1_def)
    obtain s' bs where r:
      "plaintext_loop j s1 rest = (s', Continue)" "buffer_ok j s'"
      "calls s' = calls s1 @ map ProcessCandidates bs"
      "\<forall>b\<in>set bs. int (length b) = analysis_interval j"
      "concat bs @ take (nat (index s')) (received_candidates s')
         = take (nat (index s1)) (received_candidates s1) @ map (Some \<circ> butlast) rest"
      "candidate_counter s' = candidate_counter s1 + int (length rest)"
      using Cons.IH[OF ok1 c1] by blast
    have full: "Suc (nat (index s)) = length ?rc"
      using ok True by (auto simp: buffer_ok_def)
    have whole: "?rc = take (nat (index s)) (received_candidates s) @ [Some (butlast c)]"
      using tk full by simp
    show ?thesis
    proof (intro exI[of _ s'] exI[of _ "?rc # bs"] conjI)
      show "plaintext_loop j s (c # rest) = (s', Continue)" using b r(1) by simp
      show "buffer_ok j s'" by (rule r(2))
      show "calls s' = calls s @ map ProcessCandidates (?rc # bs)"
        using r(3) by (simp add: s1_def)
      show "\<forall>b\<in>set (?rc # bs). int (length b) = analysis_interval j"
        using r(4) ok by (simp add: buffer_ok_def)
      show "concat (?rc # bs) @ take (nat (index s')) (received_candidates s')
         = take (nat (index s)) (received_candidates s) @ map (Some \<circ> butlast) (c # rest)"
        using r(5) whole by (simp add: s1_def)
      show "candidate_counter s' = candidate_counter s + int (length (c # rest))"
        using r(6) by (simp add: s1_def)
    qed
  next
    case False
    define s1 where "s1 = s\<lparr>received_candidates := ?rc,
        candidate_counter := candidate_counter s + 1, index := index s + 1\<rparr>"
    have b: "plaintext_body j s c = (s1, Continue)"
      unfolding s1_def by (rule plaintext_body_store[OF ok nt False])
    have ok1: "buffer_ok j s1"
      using ok False by (simp add: buffer_ok_def s1_def)
    have c1: "\<forall>c. terminate_guessing j = Some c \<longrightarrow>
             c \<le> candidate_counter s1 \<or> candidate_counter s1 + int (length rest) < c"
      using Cons.prems(2) by (auto simp: s1_def)
    obtain s' bs where r:
      "plaintext_loop j s1 rest = (s', Continue)" "buffer_ok j s'"
      "calls s' = calls s1 @ map ProcessCandidates bs"
      "\<forall>b\<in>set bs. int (length b) = analysis_interval j"
      "concat bs @ take (nat (index s')) (received_candidates s')
         = take (nat (index s1)) (received_candidates s1) @ map (Some \<circ> butlast) rest"
      "candidate_counter s' = candidate_counter s1 + int (length rest)"
      using Cons.IH[OF ok1 c1] by blast
    have i1: "nat (index s1) = Suc (nat (index s))"
      using ok by (simp add: s1_def buffer_ok_def nat_add_distrib)
    show ?thesis
    proof (intro exI[of _ s'] exI[of _ bs] conjI)
      show "plaintext_loop j s (c # rest) = (s', Continue)" using b r(1) by simp
      show "buffer_ok j s'" by (rule r(2))
      show "calls s' = calls s @ map ProcessCandidates bs"
        using r(3) by (simp add: s1_def)
      show "\<forall>b\<in>set bs. int (length b) = analysis_interval j" by (rule r(4))
      show "concat bs @ take (nat (index s')) (received_candidates s')
         = take (nat (index s)) (received_candidates s) @ map (Some \<circ> butlast) (c # rest)"
        using r(5) tk unfolding i1 by (simp add: s1_def)
      show "candidate_counter s' = candidate_counter s + int (length (c # rest))"
        using r(6) by (simp add: s1_def)
    qed
  qed
qed

lemma handle_close_plaintext:
  assumes "filetype j = Plaintext"
    and "int (length (received_candidates s)) = analysis_interval j"
    and "0 < index s" and "index s \<le> analysis_interval j"
  shows "handle_close j s l =
     (s\<lparr>received_candidates := take (nat (index s)) (received_candidates s),
        index := 0,
        calls := calls s @
          [ProcessCandidates (take (nat (index s)) (received_candidates s)), GenReport]\<rparr>,
      Returned)"
proof -
  have k: "nat (index s) \<le> length (received_candidates s)" using assms by auto
  have "range_down (analysis_interval j - 1) (index s - 1)
        = range_down (int (length (received_candidates s)) - 1) (int (nat (index s)) - 1)"
    using assms by simp
  then have "del_items (received_candidates s)
        (range_down (analysis_interval j - 1) (index s - 1))
        = Some (take (nat (index s)) (received_candidates s))"
    using del_items_range[OF k] by simp
  then show ?thesis using assms by (simp add: handle_close_def emit_def)
qed

lemma handle_close_plaintext_empty:
  assumes "filetype j = Plaintext" and "index s = 0"
  shows "handle_close j s l = (s\<lparr>calls := calls s @ [GenReport]\<rparr>, Returned)"
  using assms by (simp add: handle_close_def emit_def)

lemma batches_append: "batches (xs @ ys) = batches xs @ batches ys"
  by (induction xs rule: batches.induct) simp_all

lemma batches_map: "batches (map ProcessCandidates bs) = bs"
  by (induction bs) simp_all




lemma init_buffer_ok: "1 \<le> analysis_interval j \<Longrightarrow> buffer_ok j (init_state j)"
  by (simp add: buffer_ok_def init_state_def)





section \<open>The ceiling on plaintext input\<close>

text \<open>
  C2, as stated, fails for a ceiling below 1: the counter is compared after it
  has been incremented, so it never equals 0. With the ceiling 0 and two
  lines the loop runs to the end of the stream, the guesser is not killed and
  two candidates are handed over.
\<close>

theorem ceiling_zero_counterexample:
  "terminate_guessing (plaintext_job 1 (Some 0)) = Some 0 \<and>
   (0::int) \<le> int (length [''a\<newline>'', ''b\<newline>'']) \<and>
   length (concat (batches (calls (fst (execute (plaintext_job 1 (Some 0))
      [''a\<newline>'', ''b\<newline>'']))))) = 2 \<and>
   execute (plaintext_job 1 (Some 0)) [''a\<newline>'', ''b\<newline>'']
   = (\<lparr>received_candidates = [Some ''b''], index = 0, candidate_counter = 2,
       calls = [ProcessCandidates [Some ''a''], ProcessCandidates [Some ''b''], GenReport]\<rparr>,
      Returned)"
  by code_simp

text \<open>
  C2, amended. With plaintext input, an interval of at least 1 and a ceiling
  \<open>c\<close> with \<open>1 \<le> c \<le> m\<close>, the run returns with the counter equal to \<open>c\<close>;
  the guesser is killed once, after the full batches and before the last
  batch; the batches hold one entry for each of the first \<open>c\<close> lines (the
  line without its last character) and nothing else, so at most \<open>c\<close>
  candidates are handed over.
\<close>

theorem plaintext_stops_at_ceiling:
  assumes "filetype j = Plaintext"
    and "1 \<le> analysis_interval j"
    and "terminate_guessing j = Some c"
    and "1 \<le> c" and "c \<le> int (length stdin)"
  shows "snd (execute j stdin) = Returned \<and>
    candidate_counter (fst (execute j stdin)) = c \<and>
    calls (fst (execute j stdin))
      = map ProcessCandidates (butlast (batches (calls (fst (execute j stdin)))))
        @ [KillGuesser, ProcessCandidates (last (batches (calls (fst (execute j stdin))))),
           GenReport] \<and>
    concat (batches (calls (fst (execute j stdin))))
      = map (Some \<circ> butlast) (take (nat c) stdin) \<and>
    length (concat (batches (calls (fst (execute j stdin))))) = nat c \<and>
    int (length (concat (batches (calls (fst (execute j stdin)))))) \<le> c"
proof -
  define k where "k = nat c - 1"
  define pre where "pre = take k stdin"
  define x where "x = stdin ! k"
  define post where "post = drop (Suc k) stdin"
  have klt: "k < length stdin" using assms(4,5) by (auto simp: k_def)
  have split: "stdin = pre @ x # post"
    using klt by (simp add: id_take_nth_drop pre_def x_def post_def)
  have lpre: "int (length pre) = c - 1" using klt assms(4) by (simp add: pre_def k_def)
  have kc: "nat c = Suc k" using assms(4) by (simp add: k_def)
  have tk: "take (nat c) stdin = pre @ [x]"
    unfolding kc pre_def x_def by (rule take_Suc_conv_app_nth[OF klt])
  have ok0: "buffer_ok j (init_state j)" by (rule init_buffer_ok[OF assms(2)])
  have c0: "\<forall>c'. terminate_guessing j = Some c' \<longrightarrow>
      c' \<le> candidate_counter (init_state j)
      \<or> candidate_counter (init_state j) + int (length pre) < c'"
    using assms(3,4) lpre by (auto simp: init_state_def)
  obtain s' bs where r:
    "plaintext_loop j (init_state j) pre = (s', Continue)" "buffer_ok j s'"
    "calls s' = calls (init_state j) @ map ProcessCandidates bs"
    "\<forall>b\<in>set bs. int (length b) = analysis_interval j"
    "concat bs @ take (nat (index s')) (received_candidates s')
       = take (nat (index (init_state j))) (received_candidates (init_state j))
         @ map (Some \<circ> butlast) pre"
    "candidate_counter s' = candidate_counter (init_state j) + int (length pre)"
    using plaintext_loop_below_ceiling[OF ok0 c0] by blast
  have cnt: "candidate_counter s' + 1 = c"
    using r(6) lpre assms(4) by (simp add: init_state_def)
  let ?rc = "(received_candidates s')[nat (index s') := Some (butlast x)]"
  define s1 where "s1 = s'\<lparr>received_candidates := ?rc,
        candidate_counter := candidate_counter s' + 1,
        index := index s' + 1,
        calls := calls s' @ [KillGuesser]\<rparr>"
  have b: "plaintext_body j s' x = (s1, Break)"
    unfolding s1_def using plaintext_body_break[OF r(2)] assms(3) cnt by simp
  have "plaintext_loop j (init_state j) (pre @ x # post) = (s1, Break)"
    by (simp add: plaintext_loop_append r(1) b)
  then have lp: "plaintext_loop j (init_state j) stdin = (s1, Break)"
    using split by simp
  have ex: "execute j stdin = handle_close j s1 None"
    using assms(1) lp by (simp add: execute_def)
  have il: "nat (index s') < length (received_candidates s')"
    using r(2) by (auto simp: buffer_ok_def)
  have i1: "nat (index s1) = Suc (nat (index s'))"
    using r(2) by (simp add: s1_def buffer_ok_def nat_add_distrib)
  let ?part = "take (nat (index s1)) (received_candidates s1)"
  have part: "?part = take (nat (index s')) (received_candidates s') @ [Some (butlast x)]"
    unfolding i1 using take_Suc_update[OF il] by (simp add: s1_def)
  have len: "int (length (received_candidates s1)) = analysis_interval j"
    using r(2) by (simp add: buffer_ok_def s1_def)
  have pos: "0 < index s1" and le: "index s1 \<le> analysis_interval j"
    using r(2) by (auto simp: buffer_ok_def s1_def)
  have e: "execute j stdin =
      (s1\<lparr>received_candidates := ?part, index := 0,
          calls := calls s1 @ [ProcessCandidates ?part, GenReport]\<rparr>, Returned)"
    using ex handle_close_plaintext[OF assms(1) len pos le] by simp
  have calls1: "calls s1 = map ProcessCandidates bs @ [KillGuesser]"
    using r(3) by (simp add: s1_def init_state_def)
  have bt: "batches (calls (fst (execute j stdin))) = bs @ [?part]"
    by (simp add: e calls1 batches_append batches_map)
  have cc: "concat (bs @ [?part]) = map (Some \<circ> butlast) (take (nat c) stdin)"
    using r(5) part tk by (simp add: init_state_def)
  have "length (concat (bs @ [?part])) = nat c"
    using arg_cong[OF cc, of length] klt assms(4,5) by (simp del: length_concat)
  moreover have "candidate_counter (fst (execute j stdin)) = c"
    using cnt by (simp add: e s1_def)
  ultimately show ?thesis unfolding bt using cc klt kc assms(4) by (simp add: e calls1)
qed

theorem plaintext_stops_at_ceiling_witness:
  "filetype (plaintext_job 2 (Some 3)) = Plaintext \<and>
   1 \<le> analysis_interval (plaintext_job 2 (Some 3)) \<and>
   terminate_guessing (plaintext_job 2 (Some 3)) = Some 3 \<and>
   (3::int) \<le> int (length [''a\<newline>'', ''b\<newline>'', ''c\<newline>'', ''d\<newline>'']) \<and>
   candidate_counter (fst (execute (plaintext_job 2 (Some 3)) [''a\<newline>'', ''b\<newline>'', ''c\<newline>'', ''d\<newline>''])) = 3 \<and>
   calls (fst (execute (plaintext_job 2 (Some 3)) [''a\<newline>'', ''b\<newline>'', ''c\<newline>'', ''d\<newline>'']))
     = [ProcessCandidates [Some ''a'', Some ''b''], KillGuesser,
        ProcessCandidates [Some ''c''], GenReport] \<and>
   concat (batches (calls (fst (execute (plaintext_job 2 (Some 3)) [''a\<newline>'', ''b\<newline>'', ''c\<newline>'', ''d\<newline>''])))) 
     = [Some ''a'', Some ''b'', Some ''c'']"
proof -
  have a: "filetype (plaintext_job 2 (Some 3)) = Plaintext" by (simp add: plaintext_job_def)
  have b: "1 \<le> analysis_interval (plaintext_job 2 (Some 3))" by (simp add: plaintext_job_def)
  have c: "terminate_guessing (plaintext_job 2 (Some 3)) = Some 3" by (simp add: plaintext_job_def)
  have d: "(1::int) \<le> 3" by simp
  have e: "(3::int) \<le> int (length [''a\<newline>'', ''b\<newline>'', ''c\<newline>'', ''d\<newline>''])" by simp
  have f: "calls (fst (execute (plaintext_job 2 (Some 3)) [''a\<newline>'', ''b\<newline>'', ''c\<newline>'', ''d\<newline>'']))
     = [ProcessCandidates [Some ''a'', Some ''b''], KillGuesser,
        ProcessCandidates [Some ''c''], GenReport]"
    by code_simp
  show ?thesis
    using plaintext_stops_at_ceiling[OF a b c d e] a b c e f by simp
qed

section \<open>The loop over the status lines\<close>

lemma handle_close_hash:
  "filetype j = Hashvalues \<Longrightarrow>
   handle_close j s (Some l) = (s\<lparr>calls := calls s @ [ProcessStatusLine l, GenReport]\<rparr>, Returned)"
  by (simp add: handle_close_def emit_def)

lemma handle_close_hash_none:
  "filetype j = Hashvalues \<Longrightarrow>
   handle_close j s None = (s\<lparr>calls := calls s @ [GenReport]\<rparr>, Returned)"
  by (simp add: handle_close_def emit_def)

lemma hash_body_continues:
  assumes "hash_line_continues j l"
  shows "\<exists>s'. hash_body j s l = (s', Continue) \<and>
           calls s' = calls s @ (if status_line_match l then [ProcessStatusLine l] else [])"
  using assms
  by (auto simp: hash_line_continues_def hash_body_def emit_def Let_def
           split: if_splits sum.splits)

lemma hash_loop_append:
  "hash_loop j s ln (xs @ ys) =
     (case hash_loop j s ln xs of
        ((s', ln'), Continue) \<Rightarrow> hash_loop j s' ln' ys
      | r \<Rightarrow> r)"
  by (induction xs arbitrary: s ln) (auto split: prod.splits control.splits)

lemma hash_loop_continues:
  assumes "list_all (hash_line_continues j) pre"
  shows "\<exists>s'. hash_loop j s ln pre
             = ((s', if pre = [] then ln else Some (last pre)), Continue) \<and>
           calls s' = calls s @ map ProcessStatusLine (filter status_line_match pre)"
  using assms
proof (induction pre arbitrary: s ln)
  case Nil
  show ?case by simp
next
  case (Cons l pre)
  obtain s1 where b: "hash_body j s l = (s1, Continue)"
    "calls s1 = calls s @ (if status_line_match l then [ProcessStatusLine l] else [])"
    using hash_body_continues[of j l s] Cons.prems by auto
  obtain s' where r: "hash_loop j s1 (Some l) pre
             = ((s', if pre = [] then Some l else Some (last pre)), Continue)"
    "calls s' = calls s1 @ map ProcessStatusLine (filter status_line_match pre)"
    using Cons.IH[of s1 "Some l"] Cons.prems by auto
  show ?case
    by (rule exI[of _ s']) (use b r in simp)
qed

lemma hash_body_breach:
  assumes "terminate_guessing j = Some c" and "status_line_match l"
    and "coarse_count l = Inr n" and "c \<le> n"
  shows "hash_body j s l =
           (s\<lparr>candidate_counter := n, calls := calls s @ [KillGuesser]\<rparr>, Break)"
  using assms by (simp add: hash_body_def emit_def)

lemma hash_body_session_completed:
  assumes "filetype j = Hashvalues" and "\<not> status_line_match l" and "session_completed l"
  shows "hash_body j s l =
           (s\<lparr>calls := calls s @ (if terminate_guessing j \<noteq> None then [KillGuesser] else [])
                              @ [GenReport]\<rparr>, Return)"
  using assms by (simp add: hash_body_def handle_close_hash_none emit_def)

text \<open>
  C3, as stated, fails: the line that reaches the ceiling is handed to
  \<^verbatim>\<open>process_status_line\<close>. The loop leaves it out, but the call
  \<^verbatim>\<open>handle_close(last_line=line)\<close> after the loop passes it on. With the
  ceiling 5000 and the single line \<^verbatim>\<open>1g 5000p\<close> the calls are the kill,
  that line, and the report.
\<close>

theorem breach_line_forwarded_counterexample:
  "status_line_match ''1g 5000p'' \<and> coarse_count ''1g 5000p'' = Inr 5000 \<and>
   terminate_guessing (hash_job (Some 5000)) = Some 5000 \<and>
   calls (fst (execute (hash_job (Some 5000)) [''1g 5000p'']))
   = [KillGuesser, ProcessStatusLine ''1g 5000p'', GenReport]"
  by code_simp

text \<open>
  C3, amended. With hashed input, when the lines before it let the loop go
  on and a status line has a count at or above the ceiling, the guesser is
  killed and no later line is read; the loop does not forward that line, and
  the closing step forwards it once, after the kill and before the report.
\<close>

theorem hash_breach_kills_then_forwards_once:
  assumes "filetype j = Hashvalues"
    and "terminate_guessing j = Some c"
    and "list_all (hash_line_continues j) pre"
    and "status_line_match l" and "coarse_count l = Inr n" and "c \<le> n"
  shows "snd (execute j (pre @ l # post)) = Returned \<and>
    candidate_counter (fst (execute j (pre @ l # post))) = n \<and>
    calls (fst (execute j (pre @ l # post)))
      = map ProcessStatusLine (filter status_line_match pre)
        @ [KillGuesser, ProcessStatusLine l, GenReport]"
proof -
  obtain s' where r: "hash_loop j (init_state j) None pre
             = ((s', if pre = [] then None else Some (last pre)), Continue)"
    "calls s' = calls (init_state j) @ map ProcessStatusLine (filter status_line_match pre)"
    using hash_loop_continues[OF assms(3)] by blast
  have b: "hash_body j s' l
           = (s'\<lparr>candidate_counter := n, calls := calls s' @ [KillGuesser]\<rparr>, Break)"
    by (rule hash_body_breach[OF assms(2,4,5,6)])
  have lp: "hash_loop j (init_state j) None (pre @ l # post)
        = ((s'\<lparr>candidate_counter := n, calls := calls s' @ [KillGuesser]\<rparr>, Some l), Break)"
    by (simp add: hash_loop_append r(1) b)
  have "execute j (pre @ l # post)
        = handle_close j (s'\<lparr>candidate_counter := n, calls := calls s' @ [KillGuesser]\<rparr>) (Some l)"
    using assms(1) by (simp add: execute_def lp)
  then show ?thesis
    using r(2) by (simp add: handle_close_hash[OF assms(1)] init_state_def)
qed

theorem hash_breach_kills_then_forwards_once_witness:
  "filetype (hash_job (Some 5000)) = Hashvalues \<and>
   terminate_guessing (hash_job (Some 5000)) = Some 5000 \<and>
   list_all (hash_line_continues (hash_job (Some 5000))) [''0g 4000p'', ''noise''] \<and>
   status_line_match ''1g 5000p'' \<and> coarse_count ''1g 5000p'' = Inr 5000 \<and>
   calls (fst (execute (hash_job (Some 5000))
                 ([''0g 4000p'', ''noise''] @ ''1g 5000p'' # [''2g 6000p''])))
     = [ProcessStatusLine ''0g 4000p'', KillGuesser, ProcessStatusLine ''1g 5000p'', GenReport]"
proof -
  have a: "filetype (hash_job (Some 5000)) = Hashvalues" by (simp add: hash_job_def)
  have b: "terminate_guessing (hash_job (Some 5000)) = Some 5000" by (simp add: hash_job_def)
  have c: "list_all (hash_line_continues (hash_job (Some 5000))) [''0g 4000p'', ''noise'']"
    by code_simp
  have d: "status_line_match ''1g 5000p''" by code_simp
  have e: "coarse_count ''1g 5000p'' = Inr 5000" by code_simp
  have f: "(5000::int) \<le> 5000" by simp
  have g: "filter status_line_match [''0g 4000p'', ''noise''] = [''0g 4000p'']" by code_simp
  show ?thesis
    using hash_breach_kills_then_forwards_once[OF a b c d e f, of "[''2g 6000p'']"] a b c d e g
    by simp
qed

text \<open>
  C6. With hashed input, a line that holds \<^verbatim>\<open>Session completed\<close> and is no
  status line, reached while the loop is running, ends the run: the calls
  are the status lines forwarded before it, then the kill if and only if a
  ceiling is configured, then the report. The line itself is never
  forwarded and no line after it is read.
\<close>

theorem session_completed_not_forwarded:
  assumes "filetype j = Hashvalues"
    and "list_all (hash_line_continues j) pre"
    and "\<not> status_line_match l" and "session_completed l"
  shows "snd (execute j (pre @ l # post)) = Returned \<and>
    hash_body j s l =
      (s\<lparr>calls := calls s @ (if terminate_guessing j \<noteq> None then [KillGuesser] else [])
                         @ [GenReport]\<rparr>, Return) \<and>
    calls (fst (execute j (pre @ l # post)))
      = map ProcessStatusLine (filter status_line_match pre)
        @ (if terminate_guessing j \<noteq> None then [KillGuesser] else [])
        @ [GenReport] \<and>
    ProcessStatusLine l \<notin> set (calls (fst (execute j (pre @ l # post)))) \<and>
    (KillGuesser \<in> set (calls (fst (execute j (pre @ l # post))))
       \<longleftrightarrow> terminate_guessing j \<noteq> None)"
proof -
  obtain s' where r: "hash_loop j (init_state j) None pre
             = ((s', if pre = [] then None else Some (last pre)), Continue)"
    "calls s' = calls (init_state j) @ map ProcessStatusLine (filter status_line_match pre)"
    using hash_loop_continues[OF assms(2)] by blast
  let ?k = "if terminate_guessing j \<noteq> None then [KillGuesser] else []"
  have b: "hash_body j s l = (s\<lparr>calls := calls s @ ?k @ [GenReport]\<rparr>, Return)" for s
    by (rule hash_body_session_completed[OF assms(1,3,4)])
  have lp: "hash_loop j (init_state j) None (pre @ l # post)
        = ((s'\<lparr>calls := calls s' @ ?k @ [GenReport]\<rparr>, Some l), Return)"
    by (simp add: hash_loop_append r(1) b)
  have e: "execute j (pre @ l # post) = (s'\<lparr>calls := calls s' @ ?k @ [GenReport]\<rparr>, Returned)"
    using assms(1) by (simp add: execute_def lp)
  have c: "calls (fst (execute j (pre @ l # post)))
      = map ProcessStatusLine (filter status_line_match pre) @ ?k @ [GenReport]"
    using r(2) by (simp add: e init_state_def)
  have nl: "ProcessStatusLine l \<notin> set (map ProcessStatusLine (filter status_line_match pre))"
    using assms(3) by auto
  show ?thesis
    unfolding c using nl b[of s] by (auto simp: e)
qed

theorem session_completed_not_forwarded_witness:
  "filetype (hash_job (Some 5000)) = Hashvalues \<and>
   list_all (hash_line_continues (hash_job (Some 5000))) [''0g 4000p'', ''noise''] \<and>
   \<not> status_line_match ''Session completed'' \<and> session_completed ''Session completed'' \<and>
   calls (fst (execute (hash_job (Some 5000))
                 ([''0g 4000p'', ''noise''] @ ''Session completed'' # [''2g 6000p''])))
     = [ProcessStatusLine ''0g 4000p'', KillGuesser, GenReport]"
proof -
  have a: "filetype (hash_job (Some 5000)) = Hashvalues" by (simp add: hash_job_def)
  have b: "terminate_guessing (hash_job (Some 5000)) \<noteq> None" by (simp add: hash_job_def)
  have c: "list_all (hash_line_continues (hash_job (Some 5000))) [''0g 4000p'', ''noise'']"
    by code_simp
  have d: "\<not> status_line_match ''Session completed''" by code_simp
  have e: "session_completed ''Session completed''" by code_simp
  have g: "filter status_line_match [''0g 4000p'', ''noise''] = [''0g 4000p'']" by code_simp
  show ?thesis
    using session_completed_not_forwarded[OF a c d e, of "[''2g 6000p'']"] a b c d e g
    by simp
qed

section \<open>The guess counter\<close>


lemma plaintext_body_counter:
  "candidate_counter s \<le> candidate_counter (fst (plaintext_body j s c)) \<and>
   candidate_counter (fst (plaintext_body j s c)) \<le> candidate_counter s + 1"
  by (simp add: plaintext_body_def emit_def Let_def split: option.splits)










section \<open>The report\<close>

lemma handle_close_calls:
  "(snd (handle_close j s ll) = Returned \<longrightarrow>
      (\<exists>es. calls (fst (handle_close j s ll)) = calls s @ es @ [GenReport] \<and>
            GenReport \<notin> set es)) \<and>
   (snd (handle_close j s ll) \<noteq> Returned \<longrightarrow> calls (fst (handle_close j s ll)) = calls s)"
  by (auto simp: handle_close_def emit_def split: option.splits)

lemma plaintext_body_calls:
  "\<exists>es. calls (fst (plaintext_body j s c)) = calls s @ es \<and> GenReport \<notin> set es"
  by (auto simp: plaintext_body_def emit_def Let_def split: option.splits)

lemma plaintext_loop_calls:
  "\<exists>es. calls (fst (plaintext_loop j s xs)) = calls s @ es \<and> GenReport \<notin> set es"
proof (induction xs arbitrary: s)
  case Nil
  show ?case by simp
next
  case (Cons c xs)
  obtain s1 k where b: "plaintext_body j s c = (s1, k)" by (cases "plaintext_body j s c")
  obtain e1 where e1: "calls s1 = calls s @ e1" "GenReport \<notin> set e1"
    using plaintext_body_calls[of j s c] b by auto
  show ?case
  proof (cases k)
    case Continue
    obtain e2 where e2: "calls (fst (plaintext_loop j s1 xs)) = calls s1 @ e2"
      "GenReport \<notin> set e2"
      using Cons.IH[of s1] by blast
    show ?thesis
      by (rule exI[of _ "e1 @ e2"]) (use b Continue e1 e2 in simp)
  qed (use b e1 in auto)
qed

lemma hash_body_calls:
  "(snd (hash_body j s l) = Return \<longrightarrow>
      (\<exists>es. calls (fst (hash_body j s l)) = calls s @ es @ [GenReport] \<and>
            GenReport \<notin> set es)) \<and>
   (snd (hash_body j s l) \<noteq> Return \<longrightarrow>
      (\<exists>es. calls (fst (hash_body j s l)) = calls s @ es \<and> GenReport \<notin> set es))"
proof (cases "\<not> status_line_match l \<and> session_completed l")
  case True
  define s1 where "s1 = (if terminate_guessing j \<noteq> None then emit KillGuesser s else s)"
  obtain e0 where e0: "calls s1 = calls s @ e0" "GenReport \<notin> set e0"
    by (cases "terminate_guessing j") (auto simp: s1_def emit_def)
  have hb: "hash_body j s l = (case handle_close j s1 None of
                 (s2, Raised e) \<Rightarrow> (s2, Raise e)
               | (s2, Returned) \<Rightarrow> (s2, Return))"
    using True by (simp add: hash_body_def s1_def)
  obtain s2 r where h: "handle_close j s1 None = (s2, r)" by (cases "handle_close j s1 None")
  show ?thesis
  proof (cases r)
    case Returned
    obtain es where "calls s2 = calls s1 @ es @ [GenReport]" "GenReport \<notin> set es"
      using handle_close_calls[of j s1 None] h Returned by auto
    then have "calls s2 = calls s @ (e0 @ es) @ [GenReport] \<and> GenReport \<notin> set (e0 @ es)"
      using e0 by simp
    then show ?thesis using hb h Returned by (auto simp del: append_assoc)
  next
    case (Raised e)
    have "calls s2 = calls s1" using handle_close_calls[of j s1 None] h Raised by auto
    then show ?thesis using hb h Raised e0 by auto
  qed
next
  case False
  then show ?thesis
    by (auto simp: hash_body_def emit_def Let_def split: sum.splits)
qed

lemma hash_loop_calls:
  "(snd (hash_loop j s ln xs) = Return \<longrightarrow>
      (\<exists>es. calls (fst (fst (hash_loop j s ln xs))) = calls s @ es @ [GenReport] \<and>
            GenReport \<notin> set es)) \<and>
   (snd (hash_loop j s ln xs) \<noteq> Return \<longrightarrow>
      (\<exists>es. calls (fst (fst (hash_loop j s ln xs))) = calls s @ es \<and> GenReport \<notin> set es))"
proof (induction xs arbitrary: s ln)
  case Nil
  show ?case by simp
next
  case (Cons l xs)
  obtain s1 k where b: "hash_body j s l = (s1, k)" by (cases "hash_body j s l")
  show ?case
  proof (cases k)
    case Continue
    obtain e1 where e1: "calls s1 = calls s @ e1" "GenReport \<notin> set e1"
      using hash_body_calls[of j s l] b Continue by auto
    have lp: "hash_loop j s ln (l # xs) = hash_loop j s1 (Some l) xs"
      using b Continue by simp
    show ?thesis
    proof (cases "snd (hash_loop j s1 (Some l) xs) = Return")
      case True
      obtain e2 where "calls (fst (fst (hash_loop j s1 (Some l) xs))) = calls s1 @ e2 @ [GenReport]"
        "GenReport \<notin> set e2"
        using Cons.IH[of s1 "Some l"] True by blast
      then have "calls (fst (fst (hash_loop j s1 (Some l) xs))) = calls s @ (e1 @ e2) @ [GenReport]
                 \<and> GenReport \<notin> set (e1 @ e2)"
        using e1 by simp
      then show ?thesis unfolding lp using True by blast
    next
      case False
      obtain e2 where "calls (fst (fst (hash_loop j s1 (Some l) xs))) = calls s1 @ e2"
        "GenReport \<notin> set e2"
        using Cons.IH[of s1 "Some l"] False by blast
      then have "calls (fst (fst (hash_loop j s1 (Some l) xs))) = calls s @ (e1 @ e2)
                 \<and> GenReport \<notin> set (e1 @ e2)"
        using e1 by simp
      then show ?thesis unfolding lp using False by blast
    qed
  next
    case Break
    then show ?thesis using hash_body_calls[of j s l] b by auto
  next
    case Return
    then show ?thesis using hash_body_calls[of j s l] b by auto
  next
    case (Raise e)
    then show ?thesis using hash_body_calls[of j s l] b by auto
  qed
qed

lemma gen_report_once_and_last:
  assumes "snd (execute j stdin) = Returned"
  shows "\<exists>es. calls (fst (execute j stdin)) = es @ [GenReport] \<and> GenReport \<notin> set es"
proof (cases "filetype j = Plaintext")
  case True
  obtain s k where lp: "plaintext_loop j (init_state j) stdin = (s, k)"
    by (cases "plaintext_loop j (init_state j) stdin")
  obtain e1 where e1: "calls s = e1" "GenReport \<notin> set e1"
    using plaintext_loop_calls[of j "init_state j" stdin] lp by (auto simp: init_state_def)
  have ex: "execute j stdin = handle_close j s None"
    using assms True lp by (cases k) (auto simp: execute_def)
  obtain e2 where "calls (fst (handle_close j s None)) = calls s @ e2 @ [GenReport]"
    "GenReport \<notin> set e2"
    using handle_close_calls[of j s None] assms ex by auto
  then have "calls (fst (execute j stdin)) = (e1 @ e2) @ [GenReport] \<and> GenReport \<notin> set (e1 @ e2)"
    using e1 ex by simp
  then show ?thesis by blast
next
  case False
  obtain s ln k where lp: "hash_loop j (init_state j) None stdin = ((s, ln), k)"
    by (cases "hash_loop j (init_state j) None stdin") auto
  show ?thesis
  proof (cases "k = Return")
    case True
    then have "execute j stdin = (s, Returned)"
      using False lp by (simp add: execute_def split: option.splits)
    moreover obtain es where "calls s = es @ [GenReport]" "GenReport \<notin> set es"
      using hash_loop_calls[of j "init_state j" None stdin] lp True
      by (auto simp: init_state_def)
    ultimately show ?thesis by auto
  next
    case nr: False
    obtain e1 where e1: "calls s = e1" "GenReport \<notin> set e1"
      using hash_loop_calls[of j "init_state j" None stdin] lp nr
      by (auto simp: init_state_def)
    obtain l where l: "ln = Some l" and ex: "execute j stdin = handle_close j s (Some l)"
      using assms False lp nr by (cases k; cases ln) (auto simp: execute_def)
    obtain e2 where "calls (fst (handle_close j s (Some l))) = calls s @ e2 @ [GenReport]"
      "GenReport \<notin> set e2"
      using handle_close_calls[of j s "Some l"] assms ex by auto
    then have "calls (fst (execute j stdin)) = (e1 @ e2) @ [GenReport]
               \<and> GenReport \<notin> set (e1 @ e2)"
      using e1 ex by simp
    then show ?thesis by blast
  qed
qed

lemma hash_body_never_raises:
  assumes "filetype j = Hashvalues"
  shows "snd (hash_body j s l) \<noteq> Raise e"
proof (cases "status_line_match l")
  case True
  then obtain n where "coarse_count l = Inr n" using status_line_coarse_count by blast
  then show ?thesis using True by (simp add: hash_body_def Let_def)
next
  case False
  then show ?thesis
    using assms by (simp add: hash_body_def handle_close_def emit_def Let_def)
qed

lemma hash_loop_never_raises:
  assumes "filetype j = Hashvalues"
  shows "snd (hash_loop j s ln xs) \<noteq> Raise e \<and>
         (xs \<noteq> [] \<longrightarrow> snd (fst (hash_loop j s ln xs)) \<noteq> None)"
proof (induction xs arbitrary: s ln)
  case Nil
  show ?case by simp
next
  case (Cons l xs)
  obtain s1 k where b: "hash_body j s l = (s1, k)" by (cases "hash_body j s l")
  have nr: "k \<noteq> Raise e" using hash_body_never_raises[OF assms, of s l e] b by simp
  show ?case
  proof (cases k)
    case Continue
    have "snd (fst (hash_loop j s1 (Some l) xs)) \<noteq> None"
      using Cons.IH[of s1 "Some l"] by (cases xs) auto
    then show ?thesis using b Continue Cons.IH[of s1 "Some l"] by simp
  qed (use b nr in auto)
qed

lemma hash_execute_returns:
  assumes "filetype j = Hashvalues" and "stdin \<noteq> []"
  shows "snd (execute j stdin) = Returned"
proof -
  obtain s ln k where lp: "hash_loop j (init_state j) None stdin = ((s, ln), k)"
    by (cases "hash_loop j (init_state j) None stdin") auto
  have "\<And>e. k \<noteq> Raise e" and "ln \<noteq> None"
    using hash_loop_never_raises[OF assms(1), of "init_state j" None stdin] lp assms(2)
    by auto
  then show ?thesis
    using assms(1) lp
    by (cases k; cases ln) (auto simp: execute_def handle_close_def emit_def)
qed

lemma plaintext_loop_buffer:
  assumes "buffer_ok j s"
  shows "(case plaintext_loop j s xs of
            (s', Continue) \<Rightarrow> buffer_ok j s'
          | (s', Break) \<Rightarrow>
              int (length (received_candidates s')) = analysis_interval j \<and>
              0 < index s' \<and> index s' \<le> analysis_interval j
          | _ \<Rightarrow> False)"
  using assms
proof (induction xs arbitrary: s)
  case Nil
  then show ?case by simp
next
  case (Cons c xs)
  show ?case
  proof (cases "terminate_guessing j = Some (candidate_counter s + 1)")
    case True
    show ?thesis
      using Cons.prems plaintext_body_break[OF Cons.prems True, of c]
      by (simp add: buffer_ok_def)
  next
    case nt: False
    show ?thesis
    proof (cases "index s + 1 = analysis_interval j")
      case True
      have "buffer_ok j (fst (plaintext_body j s c))"
        using Cons.prems True by (simp add: plaintext_body_flush[OF Cons.prems nt True] buffer_ok_def)
      then show ?thesis
        using Cons.IH by (simp add: plaintext_body_flush[OF Cons.prems nt True])
    next
      case False
      have "buffer_ok j (fst (plaintext_body j s c))"
        using Cons.prems False by (simp add: plaintext_body_store[OF Cons.prems nt False] buffer_ok_def)
      then show ?thesis
        using Cons.IH by (simp add: plaintext_body_store[OF Cons.prems nt False])
    qed
  qed
qed

lemma plaintext_execute_returns:
  assumes "filetype j = Plaintext" and "1 \<le> analysis_interval j"
  shows "snd (execute j stdin) = Returned"
proof -
  obtain s k where lp: "plaintext_loop j (init_state j) stdin = (s, k)"
    by (cases "plaintext_loop j (init_state j) stdin")
  have inv: "(case (s, k) of
            (s', Continue) \<Rightarrow> buffer_ok j s'
          | (s', Break) \<Rightarrow>
              int (length (received_candidates s')) = analysis_interval j \<and>
              0 < index s' \<and> index s' \<le> analysis_interval j
          | _ \<Rightarrow> False)"
    using plaintext_loop_buffer[OF init_buffer_ok[OF assms(2)], of stdin] lp by simp
  show ?thesis
  proof (cases k)
    case Continue
    then have ok: "buffer_ok j s" using inv by simp
    have ex: "execute j stdin = handle_close j s None"
      using assms(1) lp Continue by (simp add: execute_def)
    show ?thesis
    proof (cases "index s = 0")
      case True
      then show ?thesis using ex handle_close_plaintext_empty[OF assms(1) True] by simp
    next
      case False
      then have "0 < index s" "index s \<le> analysis_interval j"
        "int (length (received_candidates s)) = analysis_interval j"
        using ok by (auto simp: buffer_ok_def)
      then show ?thesis using ex handle_close_plaintext[OF assms(1)] by simp
    qed
  next
    case Break
    then have "0 < index s" "index s \<le> analysis_interval j"
      "int (length (received_candidates s)) = analysis_interval j"
      using inv by auto
    moreover have "execute j stdin = handle_close j s None"
      using assms(1) lp Break by (simp add: execute_def)
    ultimately show ?thesis using handle_close_plaintext[OF assms(1)] by simp
  qed (use inv in auto)
qed

lemma gen_report_once_on_other_paths:
  assumes "filetype j = Plaintext \<and> 1 \<le> analysis_interval j
           \<or> filetype j = Hashvalues \<and> stdin \<noteq> []"
  shows "snd (execute j stdin) = Returned \<and>
         (\<exists>es. calls (fst (execute j stdin)) = es @ [GenReport] \<and> GenReport \<notin> set es)"
proof -
  have "snd (execute j stdin) = Returned"
    using assms plaintext_execute_returns hash_execute_returns by blast
  then show ?thesis using gen_report_once_and_last by blast
qed

text \<open>
  C4. The report is not generated on every path: the run of a job with hashed
  input and a ceiling of 1000 on the empty stream ends with an exception
  and calls \<^verbatim>\<open>gen_report\<close> zero times. On every other path (the lemma
  above) the report is the last call and the only one of its kind.
\<close>

theorem gen_report_missing_on_empty_hash_stream:
  "count_list (calls (fst (execute (hash_job (Some 1000)) []))) GenReport = 0 \<and>
   snd (execute (hash_job (Some 1000)) []) = Raised UnboundLocalError"
  by code_simp

end
